theory Spec2Isabelle
  imports Main
begin

section \<open>Text and values\<close>

text \<open>
  A Python \<open>str\<close> is a sequence of code points. Here it is a \<^typ>\<open>string\<close>, read as the
  sequence of its code points: every character is a code point in the range U+0000 to
  U+00FF, and \<^const>\<open>length\<close> counts code points. The character classes below are those of
  CPython's Unicode database on that range.
\<close>

definition code :: "char \<Rightarrow> nat" where
  "code c = of_char c"

definition isspace :: "char \<Rightarrow> bool" where
  \<comment> \<open>\<open>str.isspace\<close> on one character; also the regular expression class \<open>\s\<close>.\<close>
  "isspace c = ((9 \<le> code c \<and> code c \<le> 13) \<or> (28 \<le> code c \<and> code c \<le> 32)
     \<or> code c = 133 \<or> code c = 160)"

definition strip :: "string \<Rightarrow> string" where
  \<comment> \<open>\<open>s.strip()\<close>: leading and trailing whitespace removed.\<close>
  "strip s = rev (dropWhile isspace (rev (dropWhile isspace s)))"

fun split_on :: "char \<Rightarrow> string \<Rightarrow> string list" where
  \<comment> \<open>\<open>s.split(sep)\<close> for a separator of one character: never an empty list.\<close>
  "split_on sep [] = [[]]"
| "split_on sep (c # cs) =
     (if c = sep then [] # split_on sep cs
      else (case split_on sep cs of
              [] \<Rightarrow> [[c]]
            | l # ls \<Rightarrow> (c # l) # ls))"

abbreviation newline :: char where
  "newline \<equiv> CHR 0x0A"

datatype error =
    IndexError | KeyError | TypeError | AttributeError | JSONDecodeError
  | FileNotFoundError | SameFileError | OutOfRange

definition getitem :: "'a list \<Rightarrow> int \<Rightarrow> error + 'a" where
  \<comment> \<open>\<open>xs[i]\<close> on a list: positions \<open>0 .. len - 1\<close>, or \<open>-len .. -1\<close> read from the
      end; anything else raises.\<close>
  "getitem xs i =
     (if 0 \<le> i \<and> i < int (length xs) then Inr (xs ! nat i)
      else if - int (length xs) \<le> i \<and> i < 0 then Inr (xs ! nat (int (length xs) + i))
      else Inl IndexError)"

function py_range :: "int \<Rightarrow> int \<Rightarrow> int \<Rightarrow> int list" where
  \<comment> \<open>\<open>range(start, stop, step)\<close> as the list of its values, for a positive step (the
      only use in the source).\<close>
  "py_range start stop step =
     (if 0 < step \<and> start < stop then start # py_range (start + step) stop step else [])"
  by pat_completeness auto
termination
  by (relation "measure (\<lambda>(start, stop, step). nat (stop - start))") auto

declare py_range.simps [simp del]

section \<open>Regular expressions\<close>

text \<open>
  The four patterns of \<open>scrub_text\<close> are sequences of character classes with a greedy
  repetition count, and the word boundary \<open>\b\<close>. \<open>re.sub\<close> scans the text from the left;
  at each position the matcher tries the pattern by backtracking, a repetition taking as
  many characters as it can and giving them back one at a time.
\<close>

datatype citem = Lit char | Range char char | Digit | Space | Word

definition isdecimal :: "char \<Rightarrow> bool" where
  \<comment> \<open>the class \<open>\d\<close>\<close>
  "isdecimal c = (48 \<le> code c \<and> code c \<le> 57)"

definition isalnum :: "char \<Rightarrow> bool" where
  \<comment> \<open>\<open>str.isalnum\<close> on one character: letters, digits and numeric characters.\<close>
  "isalnum c = ((48 \<le> code c \<and> code c \<le> 57) \<or> (65 \<le> code c \<and> code c \<le> 90)
     \<or> (97 \<le> code c \<and> code c \<le> 122)
     \<or> code c \<in> {170, 178, 179, 181, 185, 186, 188, 189, 190}
     \<or> (192 \<le> code c \<and> code c \<noteq> 215 \<and> code c \<noteq> 247))"

definition isword :: "char \<Rightarrow> bool" where
  \<comment> \<open>the class \<open>\w\<close>\<close>
  "isword c = (isalnum c \<or> c = CHR ''_'')"

fun in_item :: "citem \<Rightarrow> char \<Rightarrow> bool" where
  "in_item (Lit a) c = (c = a)"
| "in_item (Range a b) c = (code a \<le> code c \<and> code c \<le> code b)"
| "in_item Digit c = isdecimal c"
| "in_item Space c = isspace c"
| "in_item Word c = isword c"

definition in_class :: "citem list \<Rightarrow> char \<Rightarrow> bool" where
  \<comment> \<open>a bracketed class \<open>[...]\<close> is the list of its items\<close>
  "in_class items c = list_ex (\<lambda>i. in_item i c) items"

datatype atom =
    Boundary \<comment> \<open>\<open>\b\<close>\<close>
  | Rep "citem list" nat "nat option"
      \<comment> \<open>a class repeated at least \<open>lo\<close> and at most \<open>hi\<close> times (\<open>None\<close>: no upper bound)\<close>

abbreviation one :: "citem list \<Rightarrow> atom" where
  "one cls \<equiv> Rep cls 1 (Some 1)"

abbreviation plus_of :: "citem list \<Rightarrow> atom" where
  \<comment> \<open>\<open>x+\<close>\<close>
  "plus_of cls \<equiv> Rep cls 1 None"

abbreviation opt :: "citem list \<Rightarrow> atom" where
  \<comment> \<open>\<open>x?\<close>\<close>
  "opt cls \<equiv> Rep cls 0 (Some 1)"

abbreviation times :: "citem list \<Rightarrow> nat \<Rightarrow> nat \<Rightarrow> atom" where
  \<comment> \<open>\<open>x{lo,hi}\<close>\<close>
  "times cls lo hi \<equiv> Rep cls lo (Some hi)"

definition at_boundary :: "char option \<Rightarrow> string \<Rightarrow> bool" where
  \<comment> \<open>\<open>\b\<close>: exactly one of the characters before and after the position is a word
      character; the start and the end of the text count as non-word.\<close>
  "at_boundary prev s =
     ((case prev of None \<Rightarrow> False | Some c \<Rightarrow> isword c)
        \<noteq> (case s of [] \<Rightarrow> False | c # _ \<Rightarrow> isword c))"

definition prev_after :: "char option \<Rightarrow> string \<Rightarrow> nat \<Rightarrow> char option" where
  \<comment> \<open>the character before the position reached after \<open>k\<close> characters of \<open>s\<close>\<close>
  "prev_after prev s k = (if k = 0 then prev else Some (s ! (k - 1)))"

fun fewer :: "nat option \<Rightarrow> nat option" where
  \<comment> \<open>an upper bound after one repetition has been used\<close>
  "fewer None = None"
| "fewer (Some h) = Some (h - 1)"

fun match_here :: "atom list \<Rightarrow> char option \<Rightarrow> string \<Rightarrow> nat option" where
  \<comment> \<open>the length of the match of the pattern at this position, if there is one;
      \<open>prev\<close> is the character before the position. A repetition first tries to take
      one more character; only when the pattern cannot be completed that way, and the
      lower bound is reached, does it stop and hand over to the rest of the pattern.\<close>
  "match_here [] prev s = Some 0"
| "match_here (Boundary # rest) prev s =
     (if at_boundary prev s then match_here rest prev s else None)"
| "match_here (Rep cls lo hi # rest) prev [] =
     (if lo = 0 then match_here rest prev [] else None)"
| "match_here (Rep cls lo hi # rest) prev (c # cs) =
     (case (if hi \<noteq> Some 0 \<and> in_class cls c
            then match_here (Rep cls (lo - 1) (fewer hi) # rest) (Some c) cs
            else None) of
        Some n \<Rightarrow> Some (Suc n)
      | None \<Rightarrow> if lo = 0 then match_here rest prev (c # cs) else None)"

function sub_from :: "atom list \<Rightarrow> string \<Rightarrow> char option \<Rightarrow> string \<Rightarrow> string" where
  \<comment> \<open>\<open>re.sub(pattern, repl, text)\<close> from a position on: a match is replaced and the scan
      goes on after it; where nothing matches the character is kept. An empty match
      inserts the replacement and moves one character on.\<close>
  "sub_from p repl prev [] = (if match_here p prev [] = None then [] else repl)"
| "sub_from p repl prev (c # cs) =
     (case match_here p prev (c # cs) of
        None \<Rightarrow> c # sub_from p repl (Some c) cs
      | Some 0 \<Rightarrow> repl @ c # sub_from p repl (Some c) cs
      | Some (Suc k) \<Rightarrow> repl @ sub_from p repl (prev_after prev (c # cs) (Suc k)) (drop k cs))"
  by pat_completeness auto
termination
  by (relation "measure (\<lambda>(p, repl, prev, s). length s)") auto

definition re_sub :: "atom list \<Rightarrow> string \<Rightarrow> string \<Rightarrow> string" where
  "re_sub p repl text = sub_from p repl None text"

section \<open>Scrubber\<close>

definition NAME_RE :: "atom list" where
  \<comment> \<open>\<open>\b[A-Z][a-z]+\s[A-Z][a-z]+\b\<close>\<close>
  "NAME_RE = [Boundary, one [Range CHR ''A'' CHR ''Z''], plus_of [Range CHR ''a'' CHR ''z''],
     one [Space], one [Range CHR ''A'' CHR ''Z''], plus_of [Range CHR ''a'' CHR ''z''],
     Boundary]"

definition DATE_RE :: "atom list" where
  \<comment> \<open>\<open>\d{1,2}/\d{1,2}/\d{2,4}\<close>\<close>
  "DATE_RE = [times [Digit] 1 2, one [Lit CHR ''/''], times [Digit] 1 2, one [Lit CHR ''/''],
     times [Digit] 2 4]"

definition PHONE_RE :: "atom list" where
  \<comment> \<open>\<open>\(?\d{3}\)?[-.\s]?\d{3}[-.\s]?\d{4}\<close>\<close>
  "PHONE_RE = [opt [Lit CHR ''(''], times [Digit] 3 3, opt [Lit CHR '')''],
     opt [Lit CHR ''-'', Lit CHR ''.'', Space], times [Digit] 3 3,
     opt [Lit CHR ''-'', Lit CHR ''.'', Space], times [Digit] 4 4]"

definition EMAIL_RE :: "atom list" where
  \<comment> \<open>\<open>[\w.-]+@[\w.-]+\<close>\<close>
  "EMAIL_RE = [plus_of [Word, Lit CHR ''.'', Lit CHR ''-''], one [Lit CHR ''@''],
     plus_of [Word, Lit CHR ''.'', Lit CHR ''-'']]"

definition scrub_text :: "string \<Rightarrow> string" where
  "scrub_text text =
     (let text = re_sub NAME_RE ''[REDACTED_NAME]'' text;
          text = re_sub DATE_RE ''[REDACTED_DATE]'' text;
          text = re_sub PHONE_RE ''[REDACTED_PHONE]'' text;
          text = re_sub EMAIL_RE ''[REDACTED_EMAIL]'' text
      in text)"

fun has_match :: "atom list \<Rightarrow> char option \<Rightarrow> string \<Rightarrow> bool" where
  \<comment> \<open>the pattern matches at some position from here on (the end of the text included)\<close>
  "has_match p prev [] = (match_here p prev [] \<noteq> None)"
| "has_match p prev (c # cs) = (match_here p prev (c # cs) \<noteq> None \<or> has_match p (Some c) cs)"

fun startswith :: "string \<Rightarrow> string \<Rightarrow> bool" where
  \<comment> \<open>\<open>s.startswith(t)\<close>\<close>
  "startswith s [] = True"
| "startswith [] (b # t) = False"
| "startswith (a # s) (b # t) = (a = b \<and> startswith s t)"

fun occurrences :: "nat \<Rightarrow> string \<Rightarrow> string \<Rightarrow> nat list" where
  \<comment> \<open>the positions at which \<open>t\<close> occurs in \<open>s\<close>, counted from \<open>i\<close>\<close>
  "occurrences i t [] = (if t = [] then [i] else [])"
| "occurrences i t (c # cs) =
     (if startswith (c # cs) t then i # occurrences (Suc i) t cs else occurrences (Suc i) t cs)"

text \<open>
  What the email rule looks for, in the words of its pattern: a character of \<open>[\w.-]\<close>,
  an \<open>@\<close>, and a character of \<open>[\w.-]\<close> again, in a row.
\<close>

abbreviation email_char :: "char \<Rightarrow> bool" where
  "email_char c \<equiv> in_class [Word, Lit CHR ''.'', Lit CHR ''-''] c"

fun at_then :: "string \<Rightarrow> bool" where
  "at_then (b # c # r) = (b = CHR ''@'' \<and> email_char c)"
| "at_then _ = False"

fun has_email_core :: "string \<Rightarrow> bool" where
  "has_email_core [] = False"
| "has_email_core (a # t) = ((email_char a \<and> at_then t) \<or> has_email_core t)"

text \<open>
  What the date rule looks for, in the words of its pattern: one or two digits, a slash,
  one or two digits, a slash, and two to four digits.
\<close>

definition date_like :: "string \<Rightarrow> string \<Rightarrow> string \<Rightarrow> bool" where
  "date_like d m y =
     (list_all isdecimal d \<and> 1 \<le> length d \<and> length d \<le> 2
      \<and> list_all isdecimal m \<and> 1 \<le> length m \<and> length m \<le> 2
      \<and> list_all isdecimal y \<and> 2 \<le> length y \<and> length y \<le> 4)"

text \<open>
  What \<open>re.sub\<close> does with a pattern that has no empty match, told by the positions of the
  text: \<open>match_at p s i\<close> is the match of the pattern at position \<open>i\<close> of the text \<open>s\<close>, and
  \<open>scan p repl s k out\<close> says that \<open>out\<close> is the text from position \<open>k\<close> on in which the first
  match at or after \<open>k\<close> is replaced by \<open>repl\<close>, then the first match at or after the end of
  that one, and so on, all other characters being kept.
\<close>

definition before :: "string \<Rightarrow> nat \<Rightarrow> char option" where
  "before s i = (if i = 0 then None else Some (s ! (i - 1)))"

definition match_at :: "atom list \<Rightarrow> string \<Rightarrow> nat \<Rightarrow> nat option" where
  "match_at p s i = match_here p (before s i) (drop i s)"

inductive scan :: "atom list \<Rightarrow> string \<Rightarrow> string \<Rightarrow> nat \<Rightarrow> string \<Rightarrow> bool"
  for p repl s where
  finish: "(\<And>i. k \<le> i \<Longrightarrow> i \<le> length s \<Longrightarrow> match_at p s i = None)
     \<Longrightarrow> scan p repl s k (drop k s)"
| step: "k \<le> i \<Longrightarrow> i \<le> length s \<Longrightarrow> (\<And>j. k \<le> j \<Longrightarrow> j < i \<Longrightarrow> match_at p s j = None)
     \<Longrightarrow> match_at p s i = Some n \<Longrightarrow> scan p repl s (i + n) out
     \<Longrightarrow> scan p repl s k (take (i - k) (drop k s) @ repl @ out)"

section \<open>Segmenter\<close>

record entry =
  prompt :: string
  response :: string
  tag :: string

fun append_pairs :: "string list \<Rightarrow> string \<Rightarrow> int list \<Rightarrow> entry list \<Rightarrow> error + entry list" where
  \<comment> \<open>The body of the \<open>for i in range(...)\<close> loop of \<open>segment_into_pairs\<close>, over the
      values of \<open>i\<close> still to come, with the dataset built so far.\<close>
  "append_pairs paragraphs t [] dataset = Inr dataset"
| "append_pairs paragraphs t (i # is) dataset =
     (case getitem paragraphs i of
        Inl e \<Rightarrow> Inl e
      | Inr p \<Rightarrow>
          (case getitem paragraphs (i + 1) of
             Inl e \<Rightarrow> Inl e
           | Inr r \<Rightarrow>
               append_pairs paragraphs t is
                 (dataset @ [\<lparr>prompt = p, response = r, tag = t\<rparr>])))"

definition paragraphs_of :: "string \<Rightarrow> string list" where
  \<comment> \<open>\<open>[p.strip() for p in text.split("\n") if p.strip() != ""]\<close>\<close>
  "paragraphs_of text = map strip (filter (\<lambda>p. strip p \<noteq> []) (split_on newline text))"

definition segment_into_pairs :: "string \<Rightarrow> string \<Rightarrow> error + entry list" where
  "segment_into_pairs text t =
     (let paragraphs = paragraphs_of text
      in append_pairs paragraphs t (py_range 0 (int (length paragraphs) - 1) 2) [])"

text \<open>
  The pairing as the specification words it: the first two lines make a record, the next
  two the next record, and a last line without a partner makes none.
\<close>

fun pair_up :: "string \<Rightarrow> string list \<Rightarrow> entry list" where
  "pair_up t (p # r # rest) = \<lparr>prompt = p, response = r, tag = t\<rparr> # pair_up t rest"
| "pair_up t _ = []"

section \<open>Properties of the segmenter\<close>

lemma getitem_nat:
  "n < length xs \<Longrightarrow> getitem xs (int n) = Inr (xs ! n)"
  by (simp add: getitem_def)

lemma pair_up_short:
  "length l \<le> 1 \<Longrightarrow> pair_up t l = []"
  by (cases "(t, l)" rule: pair_up.cases) auto

lemma append_pairs_from:
  "append_pairs ps t (py_range (int k) (int (length ps) - 1) 2) acc
     = Inr (acc @ pair_up t (drop k ps))"
proof (induction "length ps - k" arbitrary: k acc rule: less_induct)
  case less
  show ?case
  proof (cases "k + 1 < length ps")
    case False
    then have r: "py_range (int k) (int (length ps) - 1) 2 = []"
      by (simp add: py_range.simps)
    from False have "length (drop k ps) \<le> 1"
      by simp
    then have "pair_up t (drop k ps) = []"
      by (rule pair_up_short)
    with r show ?thesis by simp
  next
    case True
    then have r: "py_range (int k) (int (length ps) - 1) 2
        = int k # py_range (int (k + 2)) (int (length ps) - 1) 2"
      by (subst py_range.simps) (simp add: add.commute)
    from True have d: "drop k ps = ps ! k # ps ! (k + 1) # drop (k + 2) ps"
      by (metis Cons_nth_drop_Suc Suc_eq_plus1 Suc_lessD add_2_eq_Suc')
    have g1: "getitem ps (int k) = Inr (ps ! k)"
      using True by (simp add: getitem_nat)
    have g2: "getitem ps (int k + 1) = Inr (ps ! (k + 1))"
      using True getitem_nat [of "k + 1" ps] by (simp add: add.commute)
    have "length ps - (k + 2) < length ps - k"
      using True by simp
    from less [OF this] show ?thesis
      by (simp add: r d g1 g2)
  qed
qed

lemma segment_into_pairs_pair_up:
  "segment_into_pairs text t = Inr (pair_up t (paragraphs_of text))"
  using append_pairs_from [of "paragraphs_of text" t 0 "[]"]
  by (simp add: segment_into_pairs_def Let_def)

lemma strip_ends:
  assumes "strip s \<noteq> []"
  shows "\<not> isspace (hd (strip s))" and "\<not> isspace (last (strip s))"
proof -
  let ?d = "dropWhile isspace s"
  let ?e = "dropWhile isspace (rev ?d)"
  from assms have e: "?e \<noteq> []"
    by (simp add: strip_def)
  then have d: "?d \<noteq> []"
    by (metis dropWhile.simps(1) rev.simps(1))
  have "last (strip s) = hd ?e"
    using e by (simp add: strip_def last_rev)
  then show "\<not> isspace (last (strip s))"
    using e by (simp add: hd_dropWhile)
  have "last ?e = last (rev ?d)"
    using e by (metis append_Nil2 last_appendR takeWhile_dropWhile_id)
  then have "hd (strip s) = hd ?d"
    using e d by (simp add: strip_def hd_rev last_rev)
  then show "\<not> isspace (hd (strip s))"
    using d by (simp add: hd_dropWhile)
qed

lemma filter_nth_sat:
  "j < length (filter P xs) \<Longrightarrow> P (filter P xs ! j)"
  using nth_mem [of j "filter P xs"] by simp

lemma pair_up_length:
  "length (pair_up t ps) = length ps div 2"
  by (induction t ps rule: pair_up.induct) auto

lemma pair_up_nth:
  "i < length (pair_up t ps) \<Longrightarrow>
     pair_up t ps ! i = \<lparr>prompt = ps ! (2 * i), response = ps ! (2 * i + 1), tag = t\<rparr>"
proof (induction t ps arbitrary: i rule: pair_up.induct)
  case (1 t p r rest)
  then show ?case by (cases i) auto
qed auto

text \<open>
  C2. For every text and tag, \<open>segment_into_pairs\<close> splits the text at newlines, discards
  the lines that are empty after trimming, and pairs the remaining lines (in their trimmed
  form) consecutively: first a prompt, then its response; a last line without a partner
  is dropped, and every record carries the tag unchanged. No index is ever out of range.
  Both \<open>a\nb\nc\<close> and \<open>a\n\nb\nc\<close> give the single record with prompt \<open>a\<close> and
  response \<open>b\<close>.
\<close>

theorem segment_into_pairs_pairs_nonblank_lines:
  "segment_into_pairs text t
     = Inr (pair_up t (map strip (filter (\<lambda>p. strip p \<noteq> []) (split_on newline text))))
   \<and> segment_into_pairs ''a\<newline>b\<newline>c'' t = Inr [\<lparr>prompt = ''a'', response = ''b'', tag = t\<rparr>]
   \<and> segment_into_pairs ''a\<newline>\<newline>b\<newline>c'' t = Inr [\<lparr>prompt = ''a'', response = ''b'', tag = t\<rparr>]"
  by (simp add: segment_into_pairs_pair_up paragraphs_of_def strip_def isspace_def code_def)

text \<open>
  C10. For every text and tag, \<open>segment_into_pairs\<close> returns exactly \<open>n div 2\<close> records,
  where \<open>n\<close> is the number of lines that are not empty after stripping; record \<open>i\<close> has
  as prompt the stripped form of line \<open>2 i\<close> of those lines and as response the stripped
  form of line \<open>2 i + 1\<close>; both are non-empty and neither begins nor ends with
  whitespace.
\<close>

theorem segment_into_pairs_stripped_and_halved:
  "\<exists>ds. segment_into_pairs text t = Inr ds
     \<and> length ds = length (filter (\<lambda>p. strip p \<noteq> []) (split_on newline text)) div 2
     \<and> (\<forall>i < length ds.
           prompt (ds ! i) = strip (filter (\<lambda>p. strip p \<noteq> []) (split_on newline text) ! (2 * i))
         \<and> response (ds ! i)
             = strip (filter (\<lambda>p. strip p \<noteq> []) (split_on newline text) ! (2 * i + 1))
         \<and> prompt (ds ! i) \<noteq> [] \<and> response (ds ! i) \<noteq> []
         \<and> \<not> isspace (hd (prompt (ds ! i))) \<and> \<not> isspace (last (prompt (ds ! i)))
         \<and> \<not> isspace (hd (response (ds ! i))) \<and> \<not> isspace (last (response (ds ! i))))"
proof -
  let ?ls = "filter (\<lambda>p. strip p \<noteq> []) (split_on newline text)"
  let ?ds = "pair_up t (map strip ?ls)"
  have seg: "segment_into_pairs text t = Inr ?ds"
    by (simp add: segment_into_pairs_pair_up paragraphs_of_def)
  have len: "length ?ds = length ?ls div 2"
    by (simp add: pair_up_length)
  have each: "prompt (?ds ! i) = strip (?ls ! (2 * i))
         \<and> response (?ds ! i) = strip (?ls ! (2 * i + 1))
         \<and> prompt (?ds ! i) \<noteq> [] \<and> response (?ds ! i) \<noteq> []
         \<and> \<not> isspace (hd (prompt (?ds ! i))) \<and> \<not> isspace (last (prompt (?ds ! i)))
         \<and> \<not> isspace (hd (response (?ds ! i))) \<and> \<not> isspace (last (response (?ds ! i)))"
    if i: "i < length ?ds" for i
  proof -
    from i len have b: "2 * i + 1 < length ?ls"
      by simp
    then have a: "2 * i < length ?ls"
      by simp
    have p: "prompt (?ds ! i) = strip (?ls ! (2 * i))"
      using i a by (simp add: pair_up_nth)
    have r: "response (?ds ! i) = strip (?ls ! (2 * i + 1))"
      using i b by (simp add: pair_up_nth)
    have ne: "strip (?ls ! (2 * i)) \<noteq> []" "strip (?ls ! (2 * i + 1)) \<noteq> []"
      using filter_nth_sat [OF a] filter_nth_sat [OF b] by simp_all
    show ?thesis
      using p r ne strip_ends by simp
  qed
  from seg len each show ?thesis
    by blast
qed

theorem segment_into_pairs_stripped_and_halved_witness:
  "segment_into_pairs ''  a  \<newline> \<newline>b \<newline> c'' ''grief''
     = Inr [\<lparr>prompt = ''a'', response = ''b'', tag = ''grief''\<rparr>]
   \<and> length (filter (\<lambda>p. strip p \<noteq> []) (split_on newline ''  a  \<newline> \<newline>b \<newline> c'')) = 3
   \<and> strip ''  a  '' = ''a''"
  using segment_into_pairs_stripped_and_halved [of "''  a  \<newline> \<newline>b \<newline> c''" "''grief''"]
  by (simp add: segment_into_pairs_pair_up paragraphs_of_def strip_def isspace_def code_def)

section \<open>Properties of the scrubber\<close>

lemmas char_class_defs =
  code_def isspace_def isdecimal_def isalnum_def isword_def in_class_def at_boundary_def
  prev_after_def

lemmas pattern_defs = NAME_RE_def DATE_RE_def PHONE_RE_def EMAIL_RE_def

lemma scrub_text_call_john:
  "scrub_text ''Call John Smith at 555-123-4567 or john@example.com on 4/5/2023''
     = ''[REDACTED_NAME] Smith at [REDACTED_PHONE] or [REDACTED_EMAIL] on [REDACTED_DATE]''"
  by (simp add: scrub_text_def re_sub_def pattern_defs char_class_defs)

text \<open>
  C3. On the input \<open>Call John Smith at 555-123-4567 or john@example.com on 4/5/2023\<close>
  the scrubber returns a text in which each of the four tokens occurs exactly once: the
  name token at position 0, the phone token at 25, the email token at 45 and the date
  token at 65, so in that order.
\<close>

theorem scrub_text_example_tokens_once_in_order:
  "scrub_text ''Call John Smith at 555-123-4567 or john@example.com on 4/5/2023''
     = ''[REDACTED_NAME] Smith at [REDACTED_PHONE] or [REDACTED_EMAIL] on [REDACTED_DATE]''
   \<and> occurrences 0 ''[REDACTED_NAME]''
        (scrub_text ''Call John Smith at 555-123-4567 or john@example.com on 4/5/2023'') = [0]
   \<and> occurrences 0 ''[REDACTED_PHONE]''
        (scrub_text ''Call John Smith at 555-123-4567 or john@example.com on 4/5/2023'') = [25]
   \<and> occurrences 0 ''[REDACTED_EMAIL]''
        (scrub_text ''Call John Smith at 555-123-4567 or john@example.com on 4/5/2023'') = [45]
   \<and> occurrences 0 ''[REDACTED_DATE]''
        (scrub_text ''Call John Smith at 555-123-4567 or john@example.com on 4/5/2023'') = [65]"
  by (simp add: scrub_text_call_john)

lemma sub_from_no_match:
  "\<not> has_match p prev s \<Longrightarrow> sub_from p repl prev s = s"
  by (induction s arbitrary: prev) auto

lemma rep_zero_matches:
  "match_here [Rep cls 0 hi] prev s \<noteq> None"
proof (induction s arbitrary: hi prev)
  case Nil
  show ?case by simp
next
  case (Cons c cs)
  show ?case using Cons [of "fewer hi" "Some c"] by auto
qed

lemma rep_done:
  "match_here (Rep cls 0 (Some 0) # rest) prev s = match_here rest prev s"
  by (cases s) simp_all

lemma one_step:
  "match_here (Rep cls 1 (Some 1) # rest) prev s =
     (case s of [] \<Rightarrow> None
      | c # cs \<Rightarrow> if in_class cls c then map_option Suc (match_here rest (Some c) cs) else None)"
proof (cases s)
  case Nil
  then show ?thesis by simp
next
  case (Cons c cs)
  show ?thesis
    by (cases "match_here rest (Some c) cs") (simp_all add: Cons rep_done)
qed

lemma plus_matches_iff:
  "match_here [Rep cls 1 None] prev s \<noteq> None \<longleftrightarrow> (\<exists>c t. s = c # t \<and> in_class cls c)"
proof (cases s)
  case Nil
  then show ?thesis by simp
next
  case (Cons c cs)
  then show ?thesis using rep_zero_matches [of cls None "Some c" cs] by auto
qed

lemma at_email_char: "\<not> email_char CHR ''@''"
  by (simp add: char_class_defs)

lemma at_then_matches_iff:
  "match_here [one [Lit CHR ''@''], plus_of [Word, Lit CHR ''.'', Lit CHR ''-'']] prev s \<noteq> None
     \<longleftrightarrow> at_then s"
proof (cases s)
  case Nil
  then show ?thesis by (simp add: one_step)
next
  case (Cons b cs)
  have "match_here [plus_of [Word, Lit CHR ''.'', Lit CHR ''-'']] (Some b) cs \<noteq> None
        \<longleftrightarrow> (\<exists>c t. cs = c # t \<and> email_char c)"
    by (rule plus_matches_iff)
  then show ?thesis
    unfolding Cons one_step by (cases cs) (auto simp: in_class_def simp del: match_here.simps)
qed

lemma email_match_core:
  "match_here (Rep [Word, Lit CHR ''.'', Lit CHR ''-''] lo None
       # [one [Lit CHR ''@''], plus_of [Word, Lit CHR ''.'', Lit CHR ''-'']]) prev s \<noteq> None
   \<Longrightarrow> has_email_core s \<or> (lo = 0 \<and> at_then s)"
proof (induction s arbitrary: lo prev)
  case Nil
  then show ?case by (simp add: one_step split: if_splits)
next
  case (Cons c cs)
  let ?tail = "[one [Lit CHR ''@''], plus_of [Word, Lit CHR ''.'', Lit CHR ''-'']]"
  show ?case
  proof (cases "email_char c \<and> match_here (Rep [Word, Lit CHR ''.'', Lit CHR ''-''] (lo - 1) None # ?tail) (Some c) cs \<noteq> None")
    case True
    with Cons.IH [of "lo - 1" "Some c"] show ?thesis by auto
  next
    case False
    have "match_here (Rep [Word, Lit CHR ''.'', Lit CHR ''-''] lo None # ?tail) prev (c # cs)
       = (if lo = 0 then match_here ?tail prev (c # cs) else None)"
      using False by (subst match_here.simps(4)) (auto simp del: match_here.simps)
    with Cons.prems have "lo = 0 \<and> match_here ?tail prev (c # cs) \<noteq> None"
      by (simp del: match_here.simps split: if_splits)
    then show ?thesis
      using at_then_matches_iff [of prev "c # cs"] by blast
  qed
qed

lemma email_match_has_core:
  "match_here EMAIL_RE prev s \<noteq> None \<Longrightarrow> has_email_core s"
  using email_match_core [of 1 prev s] by (simp add: EMAIL_RE_def del: match_here.simps)

lemma email_core_matches:
  assumes "email_char a" "email_char b"
  shows "match_here EMAIL_RE prev (a # CHR ''@'' # b # t) \<noteq> None"
proof -
  let ?tail = "[one [Lit CHR ''@''], plus_of [Word, Lit CHR ''.'', Lit CHR ''-'']]"
  have t: "match_here ?tail (Some a) (CHR ''@'' # b # t) \<noteq> None"
    using assms by (simp only: at_then_matches_iff) simp
  have "match_here (Rep [Word, Lit CHR ''.'', Lit CHR ''-''] 0 None # ?tail) (Some a) (CHR ''@'' # b # t)
      = match_here ?tail (Some a) (CHR ''@'' # b # t)"
    using at_email_char by (subst match_here.simps(4)) (simp del: match_here.simps)
  with t have "match_here (Rep [Word, Lit CHR ''.'', Lit CHR ''-''] 0 None # ?tail) (Some a) (CHR ''@'' # b # t) \<noteq> None"
    by simp
  then show ?thesis
    unfolding EMAIL_RE_def using assms(1)
    by (subst match_here.simps(4)) (auto simp del: match_here.simps)
qed

lemma email_match_head:
  "match_here EMAIL_RE prev s \<noteq> None \<Longrightarrow> \<exists>c t. s = c # t \<and> email_char c"
  unfolding EMAIL_RE_def
  by (cases s) (auto simp del: match_here.simps(1,2) split: if_splits)

lemma email_never_empty:
  "match_here EMAIL_RE prev s \<noteq> Some 0"
  unfolding EMAIL_RE_def
  by (cases s) (auto simp del: match_here.simps(1,2) split: if_splits option.splits)

lemma not_at_then: "b \<noteq> CHR ''@'' \<Longrightarrow> \<not> at_then (b # t)"
  by (cases t) auto

lemma sub_kept_head:
  assumes "sub_from EMAIL_RE ''[REDACTED_EMAIL]'' prev s = b # t" and "b \<noteq> CHR ''[''"
  shows "\<exists>cs. s = b # cs \<and> match_here EMAIL_RE prev s = None
           \<and> t = sub_from EMAIL_RE ''[REDACTED_EMAIL]'' (Some b) cs"
proof (cases s)
  case Nil
  with assms show ?thesis by (simp split: if_splits)
next
  case (Cons c cs)
  show ?thesis
  proof (cases "match_here EMAIL_RE prev (c # cs)")
    case None
    with assms Cons show ?thesis by auto
  next
    case (Some n)
    with assms Cons show ?thesis by (cases n) auto
  qed
qed

lemma core_after_token:
  "has_email_core (''[REDACTED_EMAIL]'' @ t) = has_email_core t"
  by (simp add: not_at_then char_class_defs)

lemma sub_no_core:
  "\<not> has_email_core (sub_from EMAIL_RE ''[REDACTED_EMAIL]'' prev s)"
proof (induction s arbitrary: prev rule: length_induct)
  case (1 s)
  let ?R = "''[REDACTED_EMAIL]''"
  show ?case
  proof (cases s)
    case Nil
    then show ?thesis using core_after_token [of "[]"] by simp
  next
    case (Cons c cs)
    show ?thesis
    proof (cases "match_here EMAIL_RE prev (c # cs)")
      case None
      let ?o = "sub_from EMAIL_RE ?R (Some c) cs"
      have rest: "\<not> has_email_core ?o"
        using 1 Cons by simp
      have "\<not> (email_char c \<and> at_then ?o)"
      proof
        assume a: "email_char c \<and> at_then ?o"
        then obtain b r where o: "?o = CHR ''@'' # b # r" and b: "email_char b"
          by (cases ?o rule: at_then.cases) auto
        from sub_kept_head [OF o] obtain cs' where cs: "cs = CHR ''@'' # cs'"
          and r: "b # r = sub_from EMAIL_RE ?R (Some CHR ''@'') cs'"
          by auto
        from b have "b \<noteq> CHR ''[''"
          by (auto simp: char_class_defs)
        with sub_kept_head [OF r [symmetric]] obtain cs'' where "cs' = b # cs''"
          by auto
        with cs have "match_here EMAIL_RE prev (c # cs) \<noteq> None"
          using email_core_matches a b by simp
        with None show False by simp
      qed
      with rest None Cons show ?thesis by simp
    next
      case (Some n)
      then obtain k where n: "n = Suc k"
        using email_never_empty [of prev "c # cs"] by (cases n) auto
      have "length (drop k cs) < length s"
        using Cons by simp
      with 1 have "\<not> has_email_core (sub_from EMAIL_RE ?R (prev_after prev (c # cs) (Suc k)) (drop k cs))"
        by blast
      with Some n Cons show ?thesis
        by (simp add: not_at_then char_class_defs)
    qed
  qed
qed

lemma has_match_core:
  "has_match EMAIL_RE prev s \<Longrightarrow> has_email_core s"
proof (induction s arbitrary: prev)
  case Nil
  then show ?case using email_match_head [of prev "[]"] by simp
next
  case (Cons c cs)
  then show ?case using email_match_has_core [of prev "c # cs"] by auto
qed

lemma match_len:
  "match_here p prev s = Some n \<Longrightarrow> n \<le> length s"
  by (induction p prev s arbitrary: n rule: match_here.induct)
     (auto split: if_splits option.splits)

lemma scan_skip:
  assumes "scan p repl s (Suc k) out" and "match_at p s k = None" and "k < length s"
  shows "scan p repl s k (s ! k # out)"
  using assms(1)
proof (cases rule: scan.cases)
  case finish
  have "match_at p s i = None" if "k \<le> i" "i \<le> length s" for i
    using that finish(2) [of i] assms(2) by (cases "i = k") auto
  then have "scan p repl s k (drop k s)"
    by (rule scan.finish)
  then show ?thesis
    using finish(1) assms(3) by (simp add: Cons_nth_drop_Suc)
next
  case (step i n out')
  have none: "match_at p s j = None" if "k \<le> j" "j < i" for j
    using that step(4) [of j] assms(2) by (cases "j = k") auto
  have "scan p repl s k (take (i - k) (drop k s) @ repl @ out')"
    using step(2,3,5,6) none by (intro scan.step) auto
  moreover have "take (i - k) (drop k s) = s ! k # take (i - Suc k) (drop (Suc k) s)"
  proof -
    have e: "i - k = Suc (i - Suc k)"
      using step(2) by simp
    show ?thesis
      by (simp only: e Cons_nth_drop_Suc [OF assms(3), symmetric] take_Suc_Cons)
  qed
  ultimately show ?thesis
    using step(1) by simp
qed

lemma sub_from_scan:
  assumes ne: "\<And>q t. match_here p q t \<noteq> Some 0"
  shows "scan p repl s k (sub_from p repl (before s k) (drop k s))"
proof (induction "length s - k" arbitrary: k rule: less_induct)
  case less
  have at_end: "match_here p q [] = None" for q
    using ne [of q "[]"] match_len [of p q "[]"] by (cases "match_here p q []") auto
  show ?case
  proof (cases "k < length s")
    case False
    have "match_at p s i = None" if "k \<le> i" "i \<le> length s" for i
      using that False by (simp add: match_at_def at_end)
    then have "scan p repl s k (drop k s)"
      by (rule scan.finish)
    then show ?thesis
      using False by (simp add: at_end)
  next
    case True
    then have d: "drop k s = s ! k # drop (Suc k) s"
      by (simp add: Cons_nth_drop_Suc)
    show ?thesis
    proof (cases "match_here p (before s k) (drop k s)")
      case None
      have "scan p repl s (Suc k) (sub_from p repl (before s (Suc k)) (drop (Suc k) s))"
        using less [of "Suc k"] True by simp
      then have "scan p repl s k (s ! k # sub_from p repl (before s (Suc k)) (drop (Suc k) s))"
        using None True by (intro scan_skip) (simp_all add: match_at_def)
      then show ?thesis
        using None d by (simp add: before_def)
    next
      case (Some n)
      then obtain m where n: "n = Suc m"
        using ne [of "before s k" "drop k s"] by (cases n) auto
      from Some n match_len [of p "before s k" "drop k s" n] have m: "k + m < length s"
        by simp
      have "scan p repl s (k + Suc m) (sub_from p repl (before s (k + Suc m)) (drop (k + Suc m) s))"
        using less [of "k + Suc m"] True by simp
      then have "scan p repl s k (take (k - k) (drop k s) @ repl
          @ sub_from p repl (before s (k + Suc m)) (drop (k + Suc m) s))"
        using Some n True by (intro scan.step [where i = k and n = "Suc m"]) (simp_all add: match_at_def)
      moreover have "prev_after (before s k) (s ! k # drop (Suc k) s) (Suc m) = before s (k + Suc m)"
      proof -
        have "(s ! k # drop (Suc k) s) ! m = drop k s ! m"
          by (simp only: d)
        also have "\<dots> = s ! (k + m)"
          using m by simp
        finally show ?thesis
          by (simp add: prev_after_def before_def)
      qed
      moreover have "drop m (drop (Suc k) s) = drop (k + Suc m) s"
        by (simp add: add.commute)
      ultimately show ?thesis
        using Some n d by simp
    qed
  qed
qed

lemma scan_unique:
  "scan p repl s k out \<Longrightarrow> scan p repl s k out' \<Longrightarrow> out = out'"
proof (induction arbitrary: out' rule: scan.induct)
  case (finish k)
  from finish.prems show ?case
  proof (cases rule: scan.cases)
    case finish
    then show ?thesis by simp
  next
    case (step i n out2)
    with finish.hyps [of i] show ?thesis by simp
  qed
next
  case (step k i n out)
  from step.prems show ?case
  proof (cases rule: scan.cases)
    case finish
    with step.hyps(1,2,4) show ?thesis by simp
  next
    case (step i' n' out2)
    have "i = i'"
    proof (rule ccontr)
      assume "i \<noteq> i'"
      then consider "i < i'" | "i' < i" by linarith
      then show False
      proof cases
        case 1
        with step(4) [of i] \<open>k \<le> i\<close> \<open>match_at p s i = Some n\<close> show False by simp
      next
        case 2
        with step.hyps(3) [of i'] step(2,5) show False by simp
      qed
    qed
    with step \<open>match_at p s i = Some n\<close> have "n = n'" by simp
    with step \<open>i = i'\<close> step.IH [of out2] show ?thesis by simp
  qed
qed

lemma re_sub_scan:
  assumes "\<And>q t. match_here p q t \<noteq> Some 0"
  shows "scan p repl s 0 out \<longleftrightarrow> re_sub p repl s = out"
  using sub_from_scan [OF assms, of repl s 0] scan_unique [of p repl s 0]
  by (auto simp: re_sub_def before_def)

lemma rep_sound_any:
  "match_here (Rep cls lo hi # rest) prev s = Some n \<Longrightarrow>
     \<exists>u t m. s = u @ t \<and> list_all (in_class cls) u \<and> lo \<le> length u
       \<and> (\<forall>h. hi = Some h \<longrightarrow> length u \<le> h)
       \<and> match_here rest (if u = [] then prev else Some (last u)) t = Some m
       \<and> n = length u + m"
proof (induction s arbitrary: lo hi prev n)
  case Nil
  then have "lo = 0 \<and> match_here rest prev [] = Some n"
    by (simp split: if_splits)
  then show ?case by force
next
  case (Cons c cs)
  let ?inner = "if hi \<noteq> Some 0 \<and> in_class cls c
     then match_here (Rep cls (lo - 1) (fewer hi) # rest) (Some c) cs else None"
  show ?case
  proof (cases ?inner)
    case None
    with Cons.prems have "lo = 0 \<and> match_here rest prev (c # cs) = Some n"
      by (simp split: if_splits)
    then have "c # cs = [] @ (c # cs) \<and> list_all (in_class cls) [] \<and> lo \<le> length ([]::string)
       \<and> (\<forall>h. hi = Some h \<longrightarrow> length ([]::string) \<le> h)
       \<and> match_here rest (if ([]::string) = [] then prev else Some (last [])) (c # cs) = Some n
       \<and> n = length ([]::string) + n"
      by simp
    then show ?thesis by blast
  next
    case (Some k)
    then have c: "hi \<noteq> Some 0" "in_class cls c"
      and r: "match_here (Rep cls (lo - 1) (fewer hi) # rest) (Some c) cs = Some k"
      by (auto split: if_splits)
    from c r Cons.prems have n: "n = Suc k"
      by simp
    from Cons.IH [OF r] obtain u t m where u: "cs = u @ t" "list_all (in_class cls) u"
      "lo - 1 \<le> length u" "\<forall>h. fewer hi = Some h \<longrightarrow> length u \<le> h"
      "match_here rest (if u = [] then Some c else Some (last u)) t = Some m" "k = length u + m"
      by blast
    have b: "\<forall>h. hi = Some h \<longrightarrow> length (c # u) \<le> h"
      using u(4) c(1) by (cases hi) auto
    have "c # cs = (c # u) @ t \<and> list_all (in_class cls) (c # u) \<and> lo \<le> length (c # u)
       \<and> (\<forall>h. hi = Some h \<longrightarrow> length (c # u) \<le> h)
       \<and> match_here rest (if c # u = [] then prev else Some (last (c # u))) t = Some m
       \<and> n = length (c # u) + m"
      using u c n b by auto
    then show ?thesis by blast
  qed
qed

lemma rep_exact_any:
  "list_all (in_class cls) u \<Longrightarrow> lo \<le> length u \<Longrightarrow> (\<forall>h. hi = Some h \<longrightarrow> length u \<le> h) \<Longrightarrow>
   (hi \<noteq> Some (length u) \<Longrightarrow> t \<noteq> [] \<Longrightarrow> \<not> in_class cls (hd t)) \<Longrightarrow>
   match_here rest (if u = [] then prev else Some (last u)) t = Some m \<Longrightarrow>
   match_here (Rep cls lo hi # rest) prev (u @ t) = Some (length u + m)"
proof (induction u arbitrary: lo hi prev)
  case Nil
  then show ?case
    by (cases t) auto
next
  case (Cons a u)
  have m: "match_here rest (if u = [] then Some a else Some (last u)) t = Some m"
    using Cons.prems(5) by (simp split: if_splits)
  have h: "hi \<noteq> Some 0"
    using Cons.prems(3) by auto
  have b: "\<forall>h. fewer hi = Some h \<longrightarrow> length u \<le> h"
    using Cons.prems(3) by (cases hi) auto
  have x: "fewer hi \<noteq> Some (length u) \<Longrightarrow> t \<noteq> [] \<Longrightarrow> \<not> in_class cls (hd t)"
    using Cons.prems(3,4) h by (cases hi) auto
  have "match_here (Rep cls (lo - 1) (fewer hi) # rest) (Some a) (u @ t) = Some (length u + m)"
    using Cons.IH [of "lo - 1" "fewer hi" "Some a"] Cons.prems(1,2) m b x by auto
  with Cons.prems(1) h show ?case by auto
qed

lemma rep_last_any:
  "match_here [Rep cls lo hi] prev s = Some n \<Longrightarrow>
     n \<le> length s \<and> list_all (in_class cls) (take n s) \<and> lo \<le> n
       \<and> (\<forall>h. hi = Some h \<longrightarrow> n \<le> h)
       \<and> (hi = Some n \<or> drop n s = [] \<or> \<not> in_class cls (hd (drop n s)))"
proof (induction s arbitrary: lo hi prev n)
  case Nil
  then show ?case by (simp split: if_splits)
next
  case (Cons c cs)
  show ?case
  proof (cases "hi \<noteq> Some 0 \<and> in_class cls c")
    case True
    show ?thesis
    proof (cases "match_here [Rep cls (lo - 1) (fewer hi)] (Some c) cs")
      case None
      with True Cons.prems have "lo = 0"
        by (simp split: if_splits)
      with None rep_zero_matches [of cls "fewer hi" "Some c" cs] show ?thesis
        by simp
    next
      case (Some k)
      with True Cons.prems have n: "n = Suc k"
        by simp
      from Cons.IH [OF Some] have k: "k \<le> length cs" "list_all (in_class cls) (take k cs)"
        "lo - 1 \<le> k" "\<forall>h. fewer hi = Some h \<longrightarrow> k \<le> h"
        "fewer hi = Some k \<or> drop k cs = [] \<or> \<not> in_class cls (hd (drop k cs))"
        by auto
      have b: "\<forall>h. hi = Some h \<longrightarrow> Suc k \<le> h"
        using k(4) True by (cases hi) auto
      have x: "hi = Some (Suc k) \<or> drop k cs = [] \<or> \<not> in_class cls (hd (drop k cs))"
        using k(5) True by (cases hi) auto
      show ?thesis
        using n k(1,2,3) b x True by auto
    qed
  next
    case False
    with Cons.prems have "lo = 0 \<and> n = 0"
      by (auto split: if_splits)
    with False show ?thesis by auto
  qed
qed

lemma digit_class: "in_class [Digit] = isdecimal"
  by (rule ext) (simp add: in_class_def)

lemma slash_class: "in_class [Lit CHR ''/''] c = (c = CHR ''/'')"
  by (simp add: in_class_def)

lemma slash_not_digit: "\<not> isdecimal CHR ''/''"
  by (simp add: isdecimal_def code_def)

lemma name_never_empty:
  "match_here NAME_RE prev s \<noteq> Some 0"
  unfolding NAME_RE_def
  by (cases s) (auto simp del: match_here.simps(1) split: if_splits option.splits)

lemma date_never_empty:
  "match_here DATE_RE prev s \<noteq> Some 0"
  unfolding DATE_RE_def
  by (cases s) (auto simp del: match_here.simps(1,2) split: if_splits option.splits)

lemma phone_never_empty:
  "match_here PHONE_RE prev s \<noteq> Some 0"
proof (cases s)
  case Nil
  then show ?thesis by (simp add: PHONE_RE_def)
next
  case (Cons c cs)
  have "match_here (times [Digit] 3 3 # rest) q (c # cs) \<noteq> Some 0" for rest q
    by (auto simp del: match_here.simps(1,2) split: if_splits option.splits)
  then show ?thesis
    unfolding PHONE_RE_def Cons
    by (subst match_here.simps(4)) (auto simp del: match_here.simps split: option.splits)
qed

lemma date_match_exact_in:
  assumes "date_like d m y" and "length y = 4 \<or> rest = [] \<or> \<not> isdecimal (hd rest)"
  shows "match_here DATE_RE prev (d @ ''/'' @ m @ ''/'' @ y @ rest)
     = Some (length d + length m + length y + 2)"
proof -
  have y: "match_here [times [Digit] 2 4] q (y @ rest) = Some (length y + 0)" for q
    by (rule rep_exact_any) (use assms in \<open>auto simp: date_like_def digit_class\<close>)
  have s2: "match_here [one [Lit CHR ''/''], times [Digit] 2 4] q (''/'' @ y @ rest)
      = Some (length ''/'' + (length y + 0))" for q
    by (rule rep_exact_any) (use y in \<open>simp_all add: slash_class\<close>)
  have m: "match_here [times [Digit] 1 2, one [Lit CHR ''/''], times [Digit] 2 4] q
      (m @ ''/'' @ y @ rest) = Some (length m + (length ''/'' + (length y + 0)))" for q
    by (rule rep_exact_any) (use assms s2 in \<open>auto simp: date_like_def digit_class slash_not_digit\<close>)
  have s1: "match_here [one [Lit CHR ''/''], times [Digit] 1 2, one [Lit CHR ''/''],
      times [Digit] 2 4] q (''/'' @ m @ ''/'' @ y @ rest)
      = Some (length ''/'' + (length m + (length ''/'' + (length y + 0))))" for q
    by (rule rep_exact_any) (use m in \<open>simp_all add: slash_class\<close>)
  have "match_here DATE_RE prev (d @ ''/'' @ m @ ''/'' @ y @ rest)
      = Some (length d + (length ''/'' + (length m + (length ''/'' + (length y + 0)))))"
    unfolding DATE_RE_def
    by (rule rep_exact_any) (use assms s1 in \<open>auto simp: date_like_def digit_class slash_not_digit\<close>)
  then show ?thesis by simp
qed

lemma date_match_sound_in:
  assumes "match_here DATE_RE prev s = Some n"
  shows "\<exists>d m y rest. s = d @ ''/'' @ m @ ''/'' @ y @ rest \<and> date_like d m y
     \<and> (length y = 4 \<or> rest = [] \<or> \<not> isdecimal (hd rest))
     \<and> n = length d + length m + length y + 2"
proof -
  from rep_sound_any [OF assms [unfolded DATE_RE_def]]
  obtain d t1 n1 where d: "s = d @ t1" "list_all isdecimal d" "1 \<le> length d" "length d \<le> 2"
    and m1: "match_here [one [Lit CHR ''/''], times [Digit] 1 2, one [Lit CHR ''/''],
       times [Digit] 2 4] (if d = [] then prev else Some (last d)) t1 = Some n1"
    and n: "n = length d + n1"
    by (auto simp: digit_class)
  from rep_sound_any [OF m1]
  obtain s1 t2 n2 where s1: "t1 = s1 @ t2" "list_all (\<lambda>c. c = CHR ''/'') s1" "length s1 = 1"
    and m2: "match_here [times [Digit] 1 2, one [Lit CHR ''/''], times [Digit] 2 4]
       (if s1 = [] then (if d = [] then prev else Some (last d)) else Some (last s1)) t2 = Some n2"
    and n1: "n1 = length s1 + n2"
    by (auto simp: slash_class [abs_def])
  from s1 have s1': "s1 = ''/''"
    by (cases s1) auto
  from rep_sound_any [OF m2]
  obtain m t3 n3 where m: "t2 = m @ t3" "list_all isdecimal m" "1 \<le> length m" "length m \<le> 2"
    and m3: "match_here [one [Lit CHR ''/''], times [Digit] 2 4]
       (if m = [] then (if s1 = [] then (if d = [] then prev else Some (last d)) else Some (last s1))
        else Some (last m)) t3 = Some n3"
    and n2: "n2 = length m + n3"
    by (auto simp: digit_class)
  from rep_sound_any [OF m3]
  obtain s2 t4 n4 where s2: "t3 = s2 @ t4" "list_all (\<lambda>c. c = CHR ''/'') s2" "length s2 = 1"
    and m4: "match_here [times [Digit] 2 4]
       (if s2 = [] then (if m = [] then (if s1 = [] then (if d = [] then prev else Some (last d)) else Some (last s1))
        else Some (last m)) else Some (last s2)) t4 = Some n4"
    and n3: "n3 = length s2 + n4"
    by (auto simp: slash_class [abs_def])
  from s2 have s2': "s2 = ''/''"
    by (cases s2) auto
  from rep_last_any [OF m4]
  have y: "n4 \<le> length t4" "list_all isdecimal (take n4 t4)" "2 \<le> n4" "n4 \<le> 4"
    "n4 = 4 \<or> drop n4 t4 = [] \<or> \<not> isdecimal (hd (drop n4 t4))"
    by (auto simp: digit_class)
  have "s = d @ ''/'' @ m @ ''/'' @ take n4 t4 @ drop n4 t4 \<and> date_like d m (take n4 t4)
     \<and> (length (take n4 t4) = 4 \<or> drop n4 t4 = [] \<or> \<not> isdecimal (hd (drop n4 t4)))
     \<and> n = length d + length m + length (take n4 t4) + 2"
    using d s1 s1' m s2 s2' y n n1 n2 n3 by (simp add: date_like_def min_absorb2)
  then show ?thesis by blast
qed

lemma date_match_iff:
  "match_here DATE_RE prev s = Some n \<longleftrightarrow>
     (\<exists>d m y rest. s = d @ ''/'' @ m @ ''/'' @ y @ rest \<and> date_like d m y
        \<and> (length y = 4 \<or> rest = [] \<or> \<not> isdecimal (hd rest))
        \<and> n = length d + length m + length y + 2)"
  using date_match_sound_in date_match_exact_in by blast

lemma email_match_exact_in:
  assumes "u \<noteq> []" "v \<noteq> []" "list_all email_char u" "list_all email_char v"
    and "rest = [] \<or> \<not> email_char (hd rest)"
  shows "match_here EMAIL_RE prev (u @ ''@'' @ v @ rest) = Some (length u + length v + 1)"
proof -
  have v: "match_here [plus_of [Word, Lit CHR ''.'', Lit CHR ''-'']] q (v @ rest)
      = Some (length v + 0)" for q
    by (rule rep_exact_any) (use assms in \<open>auto simp: Suc_le_eq\<close>)
  have a: "match_here [one [Lit CHR ''@''], plus_of [Word, Lit CHR ''.'', Lit CHR ''-'']] q
      (''@'' @ v @ rest) = Some (length ''@'' + (length v + 0))" for q
    by (rule rep_exact_any) (use v in \<open>simp_all add: in_class_def\<close>)
  have "match_here EMAIL_RE prev (u @ ''@'' @ v @ rest)
      = Some (length u + (length ''@'' + (length v + 0)))"
    unfolding EMAIL_RE_def
    by (rule rep_exact_any) (use assms a at_email_char in \<open>auto simp: Suc_le_eq\<close>)
  then show ?thesis by simp
qed

lemma email_match_sound_in:
  assumes "match_here EMAIL_RE prev s = Some n"
  shows "\<exists>u v rest. s = u @ ''@'' @ v @ rest \<and> u \<noteq> [] \<and> v \<noteq> []
     \<and> list_all email_char u \<and> list_all email_char v
     \<and> (rest = [] \<or> \<not> email_char (hd rest))
     \<and> n = length u + length v + 1"
proof -
  from rep_sound_any [OF assms [unfolded EMAIL_RE_def]]
  obtain u t1 n1 where u: "s = u @ t1" "list_all email_char u" "1 \<le> length u"
    and m1: "match_here [one [Lit CHR ''@''], plus_of [Word, Lit CHR ''.'', Lit CHR ''-'']]
       (if u = [] then prev else Some (last u)) t1 = Some n1"
    and n: "n = length u + n1"
    by auto
  from rep_sound_any [OF m1]
  obtain s1 t2 n2 where s1: "t1 = s1 @ t2" "list_all (in_class [Lit CHR ''@'']) s1" "length s1 = 1"
    and m2: "match_here [plus_of [Word, Lit CHR ''.'', Lit CHR ''-'']]
       (if s1 = [] then (if u = [] then prev else Some (last u)) else Some (last s1)) t2 = Some n2"
    and n1: "n1 = length s1 + n2"
    by auto
  from s1 have s1': "s1 = ''@''"
    by (cases s1) (auto simp: in_class_def)
  from rep_last_any [OF m2]
  have v: "n2 \<le> length t2" "list_all email_char (take n2 t2)" "1 \<le> n2"
    "drop n2 t2 = [] \<or> \<not> email_char (hd (drop n2 t2))"
    by auto
  have "s = u @ ''@'' @ take n2 t2 @ drop n2 t2 \<and> u \<noteq> [] \<and> take n2 t2 \<noteq> []
     \<and> list_all email_char u \<and> list_all email_char (take n2 t2)
     \<and> (drop n2 t2 = [] \<or> \<not> email_char (hd (drop n2 t2)))
     \<and> n = length u + length (take n2 t2) + 1"
    using u s1 s1' v n n1 by (auto simp: min_absorb2)
  then show ?thesis by blast
qed

lemma email_match_iff:
  "match_here EMAIL_RE prev s = Some n \<longleftrightarrow>
     (\<exists>u v rest. s = u @ ''@'' @ v @ rest \<and> u \<noteq> [] \<and> v \<noteq> []
        \<and> list_all email_char u \<and> list_all email_char v
        \<and> (rest = [] \<or> \<not> email_char (hd rest))
        \<and> n = length u + length v + 1)"
  using email_match_sound_in email_match_exact_in by blast

text \<open>
  C4, as the claim states it, fails: the date \<open>1/1/11\<close> has 6 characters and its
  replacement has 15.
\<close>

theorem scrub_text_can_lengthen:
  "scrub_text ''1/1/11'' = ''[REDACTED_DATE]''
   \<and> length ''1/1/11'' < length (scrub_text ''1/1/11'')"
  by (simp add: scrub_text_def re_sub_def pattern_defs char_class_defs)

text \<open>
  C4, amended. \<open>scrub_text\<close> is a total function from texts to texts, and its result is
  the text left by four passes in the order name, date, phone, email: each pass goes through
  the text it receives from the left, replaces each match of its pattern that begins at or
  after the end of the match before it by the token of the rule, and keeps every other
  character. This determines the result; nothing bounds its length by the length of the
  input. A text in which none of the four patterns matches at any position is returned
  unchanged, and the empty text is such a text.
\<close>

theorem scrub_text_replaces_matches_rule_by_rule:
  "(scrub_text text = out \<longleftrightarrow>
      (\<exists>t1 t2 t3. scan NAME_RE ''[REDACTED_NAME]'' text 0 t1
         \<and> scan DATE_RE ''[REDACTED_DATE]'' t1 0 t2
         \<and> scan PHONE_RE ''[REDACTED_PHONE]'' t2 0 t3
         \<and> scan EMAIL_RE ''[REDACTED_EMAIL]'' t3 0 out))
   \<and> (\<not> has_match NAME_RE None text \<and> \<not> has_match DATE_RE None text
        \<and> \<not> has_match PHONE_RE None text \<and> \<not> has_match EMAIL_RE None text
      \<longrightarrow> scrub_text text = text)"
proof -
  have n: "scan NAME_RE r s 0 out \<longleftrightarrow> re_sub NAME_RE r s = out" for r s out
    by (rule re_sub_scan) (rule name_never_empty)
  have d: "scan DATE_RE r s 0 out \<longleftrightarrow> re_sub DATE_RE r s = out" for r s out
    by (rule re_sub_scan) (rule date_never_empty)
  have p: "scan PHONE_RE r s 0 out \<longleftrightarrow> re_sub PHONE_RE r s = out" for r s out
    by (rule re_sub_scan) (rule phone_never_empty)
  have e: "scan EMAIL_RE r s 0 out \<longleftrightarrow> re_sub EMAIL_RE r s = out" for r s out
    by (rule re_sub_scan) (rule email_never_empty)
  show ?thesis
    by (simp add: n d p e scrub_text_def re_sub_def sub_from_no_match)
qed

theorem scrub_text_replaces_matches_rule_by_rule_witness:
  "(\<exists>t1 t2 t3. scan NAME_RE ''[REDACTED_NAME]'' ''Ann Lee, 1/1/11'' 0 t1
         \<and> scan DATE_RE ''[REDACTED_DATE]'' t1 0 t2
         \<and> scan PHONE_RE ''[REDACTED_PHONE]'' t2 0 t3
         \<and> scan EMAIL_RE ''[REDACTED_EMAIL]'' t3 0 ''[REDACTED_NAME], [REDACTED_DATE]'')
   \<and> scrub_text ''see you at noon'' = ''see you at noon''"
proof -
  have a: "scrub_text ''Ann Lee, 1/1/11'' = ''[REDACTED_NAME], [REDACTED_DATE]''"
    by (simp add: scrub_text_def re_sub_def pattern_defs char_class_defs)
  have b: "\<not> has_match NAME_RE None ''see you at noon'' \<and> \<not> has_match DATE_RE None ''see you at noon''
        \<and> \<not> has_match PHONE_RE None ''see you at noon'' \<and> \<not> has_match EMAIL_RE None ''see you at noon''"
    by (simp add: pattern_defs char_class_defs)
  from a b show ?thesis
    using scrub_text_replaces_matches_rule_by_rule
            [of "''Ann Lee, 1/1/11''" "''[REDACTED_NAME], [REDACTED_DATE]''"]
          scrub_text_replaces_matches_rule_by_rule [of "''see you at noon''" "[]"]
    by blast
qed

text \<open>
  C5, as the claim states it, fails: \<open>!@#\<close> is a run of non-whitespace, an \<open>@\<close> and a run
  of non-whitespace, and the scrubber returns it as it is; of \<open>a+b@c.com\<close> only the part
  from \<open>b\<close> on is replaced.
\<close>

theorem scrub_text_keeps_non_word_email:
  "scrub_text ''!@#'' = ''!@#'' \<and> \<not> isspace CHR ''!'' \<and> \<not> isspace CHR ''#''
   \<and> scrub_text ''a+b@c.com'' = ''a+[REDACTED_EMAIL]''"
  by (simp add: scrub_text_def re_sub_def pattern_defs char_class_defs)

text \<open>
  C5, amended. At a position of a text the pattern of the fourth (last) rule matches exactly
  when the text there begins with a non-empty run of characters of \<open>[\w.-]\<close> (word characters,
  dot, hyphen), an \<open>@\<close> and a non-empty run of characters of \<open>[\w.-]\<close>, and the match is the
  first run, the \<open>@\<close> and the whole of the second run. Going from the left, the rule
  replaces each such match that begins at or after the end of the match before it by the
  email token, and keeps every other character. It is the last pass of \<open>scrub_text\<close>, and in
  the scrubbed text its pattern matches at no position.
\<close>

theorem email_rule_replaces_word_dot_hyphen_runs:
  "(match_here EMAIL_RE prev s = Some n \<longleftrightarrow>
      (\<exists>u v rest. s = u @ ''@'' @ v @ rest \<and> u \<noteq> [] \<and> v \<noteq> []
         \<and> list_all email_char u \<and> list_all email_char v
         \<and> (rest = [] \<or> \<not> email_char (hd rest))
         \<and> n = length u + length v + 1))
   \<and> (re_sub EMAIL_RE ''[REDACTED_EMAIL]'' t = out
        \<longleftrightarrow> scan EMAIL_RE ''[REDACTED_EMAIL]'' t 0 out)
   \<and> scrub_text text = re_sub EMAIL_RE ''[REDACTED_EMAIL]''
        (re_sub PHONE_RE ''[REDACTED_PHONE]'' (re_sub DATE_RE ''[REDACTED_DATE]''
          (re_sub NAME_RE ''[REDACTED_NAME]'' text)))
   \<and> \<not> has_match EMAIL_RE None (scrub_text text)"
proof -
  have a: "re_sub EMAIL_RE ''[REDACTED_EMAIL]'' t = out
        \<longleftrightarrow> scan EMAIL_RE ''[REDACTED_EMAIL]'' t 0 out"
    using re_sub_scan [of EMAIL_RE "''[REDACTED_EMAIL]''" t out] email_never_empty by blast
  have b: "\<not> has_match EMAIL_RE None (scrub_text text)"
    using has_match_core sub_no_core by (auto simp: scrub_text_def re_sub_def Let_def)
  have c: "scrub_text text = re_sub EMAIL_RE ''[REDACTED_EMAIL]''
        (re_sub PHONE_RE ''[REDACTED_PHONE]'' (re_sub DATE_RE ''[REDACTED_DATE]''
          (re_sub NAME_RE ''[REDACTED_NAME]'' text)))"
    by (simp add: scrub_text_def)
  from email_match_iff [of prev s n] a b c show ?thesis
    by (intro conjI)
qed

theorem email_rule_replaces_word_dot_hyphen_runs_witness:
  "match_here EMAIL_RE None ''a.b@c-d.org now'' = Some 11
   \<and> scan EMAIL_RE ''[REDACTED_EMAIL]'' ''mail a.b@c-d.org, a@b@c.com'' 0
        ''mail [REDACTED_EMAIL], [REDACTED_EMAIL]@c.com''
   \<and> \<not> has_match EMAIL_RE None (scrub_text ''mail a.b@c-d.org now'')"
proof -
  note t = email_rule_replaces_word_dot_hyphen_runs
    [of None "''a.b@c-d.org now''" 11 "''mail a.b@c-d.org, a@b@c.com''"
        "''mail [REDACTED_EMAIL], [REDACTED_EMAIL]@c.com''" "''mail a.b@c-d.org now''"]
  have "''a.b@c-d.org now'' = ''a.b'' @ ''@'' @ ''c-d.org'' @ '' now'' \<and> ''a.b'' \<noteq> []
     \<and> ''c-d.org'' \<noteq> [] \<and> list_all email_char ''a.b'' \<and> list_all email_char ''c-d.org''
     \<and> ('' now'' = [] \<or> \<not> email_char (hd '' now''))
     \<and> (11::nat) = length ''a.b'' + length ''c-d.org'' + 1"
    by (simp add: char_class_defs)
  then have m: "match_here EMAIL_RE None ''a.b@c-d.org now'' = Some 11"
    using t by blast
  have "re_sub EMAIL_RE ''[REDACTED_EMAIL]'' ''mail a.b@c-d.org, a@b@c.com''
      = ''mail [REDACTED_EMAIL], [REDACTED_EMAIL]@c.com''"
    by (simp add: re_sub_def pattern_defs char_class_defs)
  with m t show ?thesis by blast
qed

text \<open>
  C6, as the claim states it, fails: a year part of exactly three digits is redacted.
\<close>

theorem date_rule_redacts_three_digit_year:
  "re_sub DATE_RE ''[REDACTED_DATE]'' ''1/2/123'' = ''[REDACTED_DATE]''
   \<and> scrub_text ''1/2/123'' = ''[REDACTED_DATE]''"
  by (simp add: scrub_text_def re_sub_def pattern_defs char_class_defs)

text \<open>
  C6, amended. At a position of a text the pattern of the second rule matches exactly when
  the text there begins with one or two digits, a slash, one or two digits, a slash and two
  to four digits (two, three or four); the match takes as many digits of the year as there
  are, up to four. Going from the left, the rule replaces each such match that begins at or
  after the end of the match before it by the date token, and keeps every other character.
  It is the second pass of \<open>scrub_text\<close>.
\<close>

theorem date_rule_two_to_four_digit_year:
  "(match_here DATE_RE prev s = Some n \<longleftrightarrow>
      (\<exists>d m y rest. s = d @ ''/'' @ m @ ''/'' @ y @ rest \<and> date_like d m y
         \<and> (length y = 4 \<or> rest = [] \<or> \<not> isdecimal (hd rest))
         \<and> n = length d + length m + length y + 2))
   \<and> (re_sub DATE_RE ''[REDACTED_DATE]'' t = out
        \<longleftrightarrow> scan DATE_RE ''[REDACTED_DATE]'' t 0 out)
   \<and> scrub_text text = re_sub EMAIL_RE ''[REDACTED_EMAIL]''
        (re_sub PHONE_RE ''[REDACTED_PHONE]'' (re_sub DATE_RE ''[REDACTED_DATE]''
          (re_sub NAME_RE ''[REDACTED_NAME]'' text)))"
proof -
  have a: "re_sub DATE_RE ''[REDACTED_DATE]'' t = out
        \<longleftrightarrow> scan DATE_RE ''[REDACTED_DATE]'' t 0 out"
    using re_sub_scan [of DATE_RE "''[REDACTED_DATE]''" t out] date_never_empty by blast
  have c: "scrub_text text = re_sub EMAIL_RE ''[REDACTED_EMAIL]''
        (re_sub PHONE_RE ''[REDACTED_PHONE]'' (re_sub DATE_RE ''[REDACTED_DATE]''
          (re_sub NAME_RE ''[REDACTED_NAME]'' text)))"
    by (simp add: scrub_text_def)
  from date_match_iff [of prev s n] a c show ?thesis
    by (intro conjI)
qed

theorem date_rule_two_to_four_digit_year_witness:
  "match_here DATE_RE None ''4/5/123 x'' = Some 7
   \<and> match_here DATE_RE None ''1/2/12345'' = Some 8
   \<and> scan DATE_RE ''[REDACTED_DATE]'' ''born 4/5/1980, 1/2/12345'' 0
        ''born [REDACTED_DATE], [REDACTED_DATE]5''"
proof -
  note t = date_rule_two_to_four_digit_year
    [of None "''4/5/123 x''" 7 "''born 4/5/1980, 1/2/12345''"
        "''born [REDACTED_DATE], [REDACTED_DATE]5''" "[]"]
  note t' = date_rule_two_to_four_digit_year [of None "''1/2/12345''" 8 "[]" "[]" "[]"]
  have "''4/5/123 x'' = ''4'' @ ''/'' @ ''5'' @ ''/'' @ ''123'' @ '' x'' \<and> date_like ''4'' ''5'' ''123''
     \<and> (length ''123'' = 4 \<or> '' x'' = [] \<or> \<not> isdecimal (hd '' x''))
     \<and> (7::nat) = length ''4'' + length ''5'' + length ''123'' + 2"
    by (simp add: date_like_def isdecimal_def code_def)
  then have m: "match_here DATE_RE None ''4/5/123 x'' = Some 7"
    using t by blast
  have "''1/2/12345'' = ''1'' @ ''/'' @ ''2'' @ ''/'' @ ''1234'' @ ''5'' \<and> date_like ''1'' ''2'' ''1234''
     \<and> (length ''1234'' = 4 \<or> ''5'' = [] \<or> \<not> isdecimal (hd ''5''))
     \<and> (8::nat) = length ''1'' + length ''2'' + length ''1234'' + 2"
    by (simp add: date_like_def isdecimal_def code_def)
  then have m': "match_here DATE_RE None ''1/2/12345'' = Some 8"
    using t' by blast
  have "re_sub DATE_RE ''[REDACTED_DATE]'' ''born 4/5/1980, 1/2/12345''
      = ''born [REDACTED_DATE], [REDACTED_DATE]5''"
    by (simp add: re_sub_def pattern_defs char_class_defs)
  with m m' t show ?thesis by blast
qed

end
